theory Spec2Isabelle
  imports Main "HOL-Library.Word"
begin

unbundle bit_operations_syntax

section \<open>The content-defined chunk splitter (src/native/chunk/splitter.cpp)\<close>

text \<open>
  Bytes are \<open>uint8_t\<close>. \<open>Rabin::Hash\<close> is an unsigned 64-bit integer. The class
  \<open>Rabin\<close> itself (rabin.h) is not among the sources: its \<open>update(hash, byte_in, byte_out)\<close>
  is a parameter \<open>upd\<close> of every definition below, so every theorem holds for every
  rolling hash.
\<close>

type_synonym byte = "8 word"
type_synonym rabin_hash = "64 word"
type_synonym rabin_update = "rabin_hash \<Rightarrow> byte \<Rightarrow> byte \<Rightarrow> rabin_hash"

text \<open>\<open>#define NB_RABIN_WINDOW_LEN 16\<close>\<close>

definition NB_RABIN_WINDOW_LEN :: nat where
  "NB_RABIN_WINDOW_LEN = 16"

text \<open>
  An OpenSSL digest context (\<open>EVP_MD_CTX\<close>) is external. It is represented by the bytes
  it has absorbed: \<open>EVP_DigestUpdate\<close> appends, \<open>EVP_DigestFinal_ex\<close> returns the digest
  function (a parameter) of the absorbed bytes and leaves the context finalized. A context
  that was never initialised (the digest is disabled) is \<open>Uninit\<close>.
\<close>

datatype md_ctx = Uninit | Absorbing "byte list" | Finalized

fun EVP_DigestUpdate :: "md_ctx \<Rightarrow> byte list \<Rightarrow> md_ctx" where
  "EVP_DigestUpdate (Absorbing bs) d = Absorbing (bs @ d)"
| "EVP_DigestUpdate c d = c"

fun EVP_DigestFinal_ex :: "(byte list \<Rightarrow> 'd) \<Rightarrow> md_ctx \<Rightarrow> md_ctx \<times> 'd option" where
  "EVP_DigestFinal_ex H (Absorbing bs) = (Finalized, Some (H bs))"
| "EVP_DigestFinal_ex H c = (c, None)"

text \<open>
  The fields of \<open>class Splitter\<close>. Sizes and positions are C \<open>int\<close>s that the
  constructor's assertions and the loop keep non-negative; the fields are natural numbers
  here. The one sum of \<open>_next_point\<close> that can leave the range of an \<open>int\<close> is computed
  with the wrap-around written out (\<open>int_wrap\<close> below).
\<close>

record splitter =
  min_chunk :: nat
  max_chunk :: nat
  avg_chunk_bits :: nat
  calc_md5 :: bool
  calc_sha256 :: bool
  window :: "byte list"
  window_pos :: nat
  chunk_pos :: nat
  hash :: rabin_hash
  md5_ctx :: md_ctx
  sha256_ctx :: md_ctx
  split_points :: "nat list"

text \<open>
  The constructor. Its three assertions are the guard: a parameter set that violates them
  builds no splitter.
\<close>

definition Splitter ::
  "int \<Rightarrow> int \<Rightarrow> int \<Rightarrow> bool \<Rightarrow> bool \<Rightarrow> splitter option" where
  "Splitter mn mx bits md5 sha256 =
     (if \<not> (mn > 0) then None
      else if \<not> (mn \<le> mx) then None
      else if \<not> (bits \<ge> 0) then None
      else Some \<lparr>
        min_chunk = nat mn, max_chunk = nat mx, avg_chunk_bits = nat bits,
        calc_md5 = md5, calc_sha256 = sha256,
        window = replicate NB_RABIN_WINDOW_LEN 0, window_pos = 0, chunk_pos = 0, hash = 0,
        md5_ctx = (if md5 then Absorbing [] else Uninit),
        sha256_ctx = (if sha256 then Absorbing [] else Uninit),
        split_points = [] \<rparr>)"

text \<open>
  The byte-by-byte loop of \<open>_next_point\<close> over its local variables
  \<open>(window_data, window_pos, chunk_pos, hash, data)\<close>; the first component of the result is
  the flag \<open>boundary\<close>. The loop guard \<open>chunk_pos < max\<close> with \<open>max \<le> chunk_pos + len\<close>
  keeps \<open>data\<close> inside the buffer, so the empty-buffer equation is never reached with
  \<open>chunk_pos < max\<close>. The bound \<open>max\<close> is an \<open>int\<close> that can be negative (see
  \<open>next_point\<close>), so it is an integer here.
\<close>

fun scan ::
  "rabin_update \<Rightarrow> rabin_hash \<Rightarrow> rabin_hash \<Rightarrow> int \<Rightarrow> nat \<Rightarrow>
   byte list \<Rightarrow> nat \<Rightarrow> nat \<Rightarrow> rabin_hash \<Rightarrow> byte list \<Rightarrow>
   bool \<times> byte list \<times> nat \<times> nat \<times> rabin_hash \<times> byte list" where
  "scan upd avg_chunk_mask avg_chunk_val mx window_len w wp cp h [] =
     (False, w, wp, cp, h, [])"
| "scan upd avg_chunk_mask avg_chunk_val mx window_len w wp cp h (b # rest) =
     (if int cp < mx then
        (let h' = upd h b (w ! wp);
             w' = w[wp := b];
             wp1 = wp + 1;
             cp' = cp + 1;
             wp' = (if wp1 \<ge> window_len then 0 else wp1)
         in if (h' AND avg_chunk_mask) = avg_chunk_val
            then (True, w', wp', cp', h', rest)
            else scan upd avg_chunk_mask avg_chunk_val mx window_len w' wp' cp' h' rest)
      else (False, w, wp, cp, h, b # rest))"

text \<open>
  An \<open>int\<close> has 32 bits. The sum \<open>chunk_pos + (*p_len)\<close> of \<open>_next_point\<close> is not
  checked by the source; where it exceeds \<open>2^31 - 1\<close> the C++ standard leaves the result
  undefined and the compiled code wraps around to a negative number, as \<open>int_wrap\<close> does.
\<close>

definition int_wrap :: "int \<Rightarrow> int" where
  "int_wrap x = (x + 2 ^ 31) mod 2 ^ 32 - 2 ^ 31"

text \<open>
  \<open>Splitter::_next_point\<close>: the returned flag, the updated splitter, and what is left of
  the buffer (\<open>*p_data\<close>, \<open>*p_len\<close>). \<open>total\<close>, \<open>min\<close> and \<open>max\<close> are the \<open>int\<close>s of the
  source. The shift that builds \<open>avg_chunk_mask\<close> is undefined in C++ for a count of 64 or
  more; the shift instruction of the compiled code takes the count modulo 64, and so does
  the model.
\<close>

definition next_point :: "rabin_update \<Rightarrow> splitter \<Rightarrow> byte list \<Rightarrow> bool \<times> splitter \<times> byte list" where
  "next_point upd s data =
     (let window_len = length (window s);
          total = int_wrap (int (chunk_pos s) + int (length data));
          mn = (if total < int (min_chunk s) then total else int (min_chunk s));
          mx = (if total < int (max_chunk s) then total else int (max_chunk s));
          avg_chunk_mask = NOT (push_bit (avg_chunk_bits s mod 64) (NOT 0));
          avg_chunk_val = (NOT 0) AND avg_chunk_mask;
          (data1, chunk_pos1) =
            (if int (chunk_pos s) < mn then (drop (nat (mn - int (chunk_pos s))) data, nat mn)
             else (data, chunk_pos s))
      in case scan upd avg_chunk_mask avg_chunk_val mx window_len
                (window s) (window_pos s) chunk_pos1 (hash s) data1 of
           (boundary, w, wp, cp, h, data2) \<Rightarrow>
             if boundary \<or> cp \<ge> max_chunk s
             then (True,
                   s\<lparr>window := replicate window_len 0, window_pos := 0,
                     chunk_pos := cp, hash := 0\<rparr>,
                   data2)
             else (False,
                   s\<lparr>window := w, window_pos := wp, chunk_pos := cp, hash := h\<rparr>,
                   []))"

text \<open>
  The \<open>while\<close> loop of \<open>Splitter::push\<close>. Nothing in the loop itself bounds the number of
  iterations, so it is a partial function: \<open>None\<close> is a loop that never ends.
\<close>

partial_function (option) push_loop :: "rabin_update \<Rightarrow> splitter \<Rightarrow> byte list \<Rightarrow> splitter option" where
  "push_loop upd s data =
     (case next_point upd s data of
        (found, s', rest) \<Rightarrow>
          if found
          then push_loop upd (s'\<lparr>chunk_pos := 0, split_points := split_points s' @ [chunk_pos s']\<rparr>) rest
          else Some s')"

declare push_loop.simps [code]

definition push :: "rabin_update \<Rightarrow> splitter \<Rightarrow> byte list \<Rightarrow> splitter option" where
  "push upd s data =
     (let s1 = (if calc_md5 s then s\<lparr>md5_ctx := EVP_DigestUpdate (md5_ctx s) data\<rparr> else s);
          s2 = (if calc_sha256 s1 then s1\<lparr>sha256_ctx := EVP_DigestUpdate (sha256_ctx s1) data\<rparr> else s1)
      in push_loop upd s2 data)"

text \<open>A sequence of \<open>push\<close> calls, one per segment.\<close>

fun push_all :: "rabin_update \<Rightarrow> splitter \<Rightarrow> byte list list \<Rightarrow> splitter option" where
  "push_all upd s [] = Some s"
| "push_all upd s (d # ds) =
     (case push upd s d of None \<Rightarrow> None | Some s' \<Rightarrow> push_all upd s' ds)"

text \<open>
  \<open>Splitter::finish(md5, sha256)\<close>: the two destinations are pointers that may be null
  (\<open>want_md5\<close>, \<open>want_sha256\<close> say whether they are not). The result is the splitter and
  what was written to each destination.
\<close>

definition finish ::
  "(byte list \<Rightarrow> 'd) \<Rightarrow> (byte list \<Rightarrow> 'd) \<Rightarrow> splitter \<Rightarrow> bool \<Rightarrow> bool \<Rightarrow>
   splitter \<times> 'd option \<times> 'd option" where
  "finish MD5 SHA256 s want_md5 want_sha256 =
     (let (c1, out1) = (if want_md5 \<and> calc_md5 s then EVP_DigestFinal_ex MD5 (md5_ctx s)
                        else (md5_ctx s, None));
          s1 = s\<lparr>md5_ctx := c1\<rparr>;
          (c2, out2) = (if want_sha256 \<and> calc_sha256 s1 then EVP_DigestFinal_ex SHA256 (sha256_ctx s1)
                        else (sha256_ctx s1, None))
      in (s1\<lparr>sha256_ctx := c2\<rparr>, out1, out2))"


subsection \<open>The splitter, one byte at a time\<close>

text \<open>
  \<open>_next_point\<close> skips and scans whole buffers. The lemmas of this subsection show that
  \<open>push\<close> does to the splitter exactly what feeding the bytes one by one through \<open>step\<close>
  does; the properties of the splitter are then proved on \<open>step\<close>.
\<close>


lemma avg_chunk_mask_eq: "NOT (push_bit n (NOT 0)) = (mask n :: rabin_hash)"
  by (simp add: push_bit_minus_one_eq_not_mask)

definition emit :: "splitter \<Rightarrow> nat \<Rightarrow> splitter" where
  "emit s cp = s\<lparr>window := replicate (length (window s)) 0, window_pos := 0,
                 chunk_pos := 0, hash := 0, split_points := split_points s @ [cp]\<rparr>"

definition step :: "rabin_update \<Rightarrow> splitter \<Rightarrow> byte \<Rightarrow> splitter" where
  "step upd s b =
     (let cp = chunk_pos s + 1 in
      if chunk_pos s < min_chunk s
      then (if cp \<ge> max_chunk s then emit s cp else s\<lparr>chunk_pos := cp\<rparr>)
      else (let h = upd (hash s) b (window s ! window_pos s);
                w = (window s)[window_pos s := b];
                wp = (if window_pos s + 1 \<ge> length (window s) then 0 else window_pos s + 1)
            in if (h AND mask (avg_chunk_bits s mod 64)) = mask (avg_chunk_bits s mod 64) \<or> cp \<ge> max_chunk s
               then emit s cp
               else s\<lparr>window := w, window_pos := wp, chunk_pos := cp, hash := h\<rparr>))"

definition params_ok :: "splitter \<Rightarrow> bool" where
  "params_ok s = (0 < min_chunk s \<and> min_chunk s \<le> max_chunk s)"

lemma step_skip:
  "chunk_pos s + length xs \<le> min_chunk s \<Longrightarrow> chunk_pos s + length xs < max_chunk s \<Longrightarrow>
   foldl (step upd) s xs = s\<lparr>chunk_pos := chunk_pos s + length xs\<rparr>"
proof (induction xs arbitrary: s)
  case Nil
  then show ?case by simp
next
  case (Cons x xs)
  have "step upd s x = s\<lparr>chunk_pos := chunk_pos s + 1\<rparr>"
    using Cons.prems by (simp add: step_def)
  moreover have "foldl (step upd) (s\<lparr>chunk_pos := chunk_pos s + 1\<rparr>) xs
       = (s\<lparr>chunk_pos := chunk_pos s + 1\<rparr>)\<lparr>chunk_pos := chunk_pos (s\<lparr>chunk_pos := chunk_pos s + 1\<rparr>) + length xs\<rparr>"
    by (rule Cons.IH) (use Cons.prems in simp_all)
  ultimately show ?case by simp
qed

lemma scan_step:
  assumes "min_chunk s \<le> cp" "cp < max_chunk s"
    and "mx = int (min (cp + length data) (max_chunk s))"
    and "length w = length (window s)"
    and "scan upd (mask (avg_chunk_bits s mod 64)) (mask (avg_chunk_bits s mod 64)) mx (length w) w wp cp h data
         = (bd, w', wp', cp', h', rest)"
  shows "(if bd \<or> cp' \<ge> max_chunk s
          then \<exists>k. 0 < k \<and> k \<le> length data \<and> rest = drop k data \<and> cp' = cp + k \<and>
                 foldl (step upd) (s\<lparr>window := w, window_pos := wp, chunk_pos := cp, hash := h\<rparr>) (take k data)
                   = emit s cp'
          else foldl (step upd) (s\<lparr>window := w, window_pos := wp, chunk_pos := cp, hash := h\<rparr>) data
                 = s\<lparr>window := w', window_pos := wp', chunk_pos := cp', hash := h'\<rparr>)"
  using assms
proof (induction data arbitrary: w wp cp h)
  case Nil
  then show ?case by simp
next
  case (Cons b data)
  let ?s0 = "s\<lparr>window := w, window_pos := wp, chunk_pos := cp, hash := h\<rparr>"
  let ?h = "upd h b (w ! wp)"
  let ?w = "w[wp := b]"
  let ?wp = "if wp + 1 \<ge> length w then 0 else wp + 1"
  have lt: "int cp < mx" using Cons.prems by simp
  show ?case
  proof (cases "(?h AND mask (avg_chunk_bits s mod 64)) = mask (avg_chunk_bits s mod 64)")
    case True
    then have r: "bd" "rest = data" "cp' = cp + 1"
      using Cons.prems(5) lt by (simp_all add: Let_def)
    have "step upd ?s0 b = emit s (cp + 1)"
      using True Cons.prems(1,4) by (simp add: step_def emit_def Let_def)
    then show ?thesis using r by (auto intro!: exI[of _ 1])
  next
    case False
    then have sc: "scan upd (mask (avg_chunk_bits s mod 64)) (mask (avg_chunk_bits s mod 64)) mx (length ?w) ?w ?wp (cp + 1) ?h data
        = (bd, w', wp', cp', h', rest)"
      using Cons.prems(5) lt by (auto simp: Let_def)
    show ?thesis
    proof (cases "cp + 1 < max_chunk s")
      case True
      have st: "step upd ?s0 b = s\<lparr>window := ?w, window_pos := ?wp, chunk_pos := cp + 1, hash := ?h\<rparr>"
        using False True Cons.prems(1,4) by (simp add: step_def Let_def)
      have IH: "(if bd \<or> cp' \<ge> max_chunk s
          then \<exists>k. 0 < k \<and> k \<le> length data \<and> rest = drop k data \<and> cp' = (cp + 1) + k \<and>
                 foldl (step upd) (s\<lparr>window := ?w, window_pos := ?wp, chunk_pos := cp + 1, hash := ?h\<rparr>) (take k data)
                   = emit s cp'
          else foldl (step upd) (s\<lparr>window := ?w, window_pos := ?wp, chunk_pos := cp + 1, hash := ?h\<rparr>) data
                 = s\<lparr>window := w', window_pos := wp', chunk_pos := cp', hash := h'\<rparr>)"
        by (rule Cons.IH[OF _ True _ _ sc]) (use Cons.prems in simp_all)
      show ?thesis
      proof (cases "bd \<or> cp' \<ge> max_chunk s")
        case True
        with IH obtain k where k: "0 < k" "k \<le> length data" "rest = drop k data" "cp' = (cp + 1) + k"
          "foldl (step upd) (s\<lparr>window := ?w, window_pos := ?wp, chunk_pos := cp + 1, hash := ?h\<rparr>) (take k data)
                   = emit s cp'" by auto
        have "foldl (step upd) ?s0 (take (Suc k) (b # data)) = emit s cp'"
          using k(5) st by simp
        then show ?thesis using True k(1-4)
          by (intro iffD2[OF if_P[OF True]] exI[of _ "Suc k"]) simp
      next
        case F2: False
        then show ?thesis using IH st by simp
      qed
    next
      case F1: False
      then have eq: "cp + 1 = max_chunk s" using Cons.prems(2) by simp
      have "mx \<le> int (cp + 1)" using Cons.prems(3) eq by simp
      then have r: "\<not> bd" "cp' = cp + 1" "rest = data"
        using sc by (cases data; simp)+
      have "step upd ?s0 b = emit s (cp + 1)"
        using eq Cons.prems(1,4) by (simp add: step_def emit_def Let_def)
      then show ?thesis using r eq by (auto intro!: exI[of _ 1])
    qed
  qed
qed


lemma step_skip_emit:
  assumes "chunk_pos s < min_chunk s" "min_chunk s = max_chunk s"
    and "length xs = min_chunk s - chunk_pos s"
  shows "foldl (step upd) s xs = emit s (max_chunk s)"
proof -
  from assms have ne: "xs \<noteq> []" by auto
  then have xs: "xs = butlast xs @ [last xs]" by simp
  have len: "length (butlast xs) = min_chunk s - chunk_pos s - 1" using assms(3) by simp
  have "foldl (step upd) s (butlast xs) = s\<lparr>chunk_pos := chunk_pos s + length (butlast xs)\<rparr>"
    by (rule step_skip) (use assms len in simp_all)
  then have "foldl (step upd) s (butlast xs) = s\<lparr>chunk_pos := max_chunk s - 1\<rparr>"
    using len assms by simp
  then have "foldl (step upd) s (butlast xs @ [last xs]) = step upd (s\<lparr>chunk_pos := max_chunk s - 1\<rparr>) (last xs)"
    by simp
  also have "\<dots> = emit s (max_chunk s)"
    using assms by (simp add: step_def emit_def)
  finally show ?thesis using xs by simp
qed

lemma int_wrap_id: "0 \<le> x \<Longrightarrow> x < 2 ^ 31 \<Longrightarrow> int_wrap x = x"
  by (simp add: int_wrap_def)

lemma next_point_eq:
  assumes "chunk_pos s + length data < 2 ^ 31"
  shows "next_point upd s data =
     (let total = chunk_pos s + length data;
          cp1 = (if chunk_pos s < min_chunk s then min total (min_chunk s) else chunk_pos s)
      in case scan upd (mask (avg_chunk_bits s mod 64)) (mask (avg_chunk_bits s mod 64))
                (int (min total (max_chunk s)))
                (length (window s)) (window s) (window_pos s) cp1 (hash s) (drop (cp1 - chunk_pos s) data) of
           (boundary, w, wp, cp, h, data2) \<Rightarrow>
             if boundary \<or> cp \<ge> max_chunk s
             then (True, s\<lparr>window := replicate (length (window s)) 0, window_pos := 0,
                     chunk_pos := cp, hash := 0\<rparr>, data2)
             else (False, s\<lparr>window := w, window_pos := wp, chunk_pos := cp, hash := h\<rparr>, []))"
proof -
  have "int (chunk_pos s) + int (length data) < 2 ^ 31"
    using assms by (metis of_nat_add of_nat_less_iff of_nat_numeral of_nat_power)
  then have t: "int_wrap (int (chunk_pos s) + int (length data)) = int (chunk_pos s + length data)"
    by (simp add: int_wrap_id)
  have m: "(if int (chunk_pos s + length data) < int (max_chunk s) then int (chunk_pos s + length data)
            else int (max_chunk s))
      = int (min (chunk_pos s + length data) (max_chunk s))" by simp
  have n: "(if int (chunk_pos s + length data) < int (min_chunk s) then int (chunk_pos s + length data)
            else int (min_chunk s))
      = int (min (chunk_pos s + length data) (min_chunk s))" by simp
  define cp1 where "cp1 = (if chunk_pos s < min_chunk s then min (chunk_pos s + length data) (min_chunk s) else chunk_pos s)"
  have pair: "(if int (chunk_pos s) < int (min (chunk_pos s + length data) (min_chunk s))
               then (drop (nat (int (min (chunk_pos s + length data) (min_chunk s)) - int (chunk_pos s))) data,
                     nat (int (min (chunk_pos s + length data) (min_chunk s))))
               else (data, chunk_pos s))
        = (drop (cp1 - chunk_pos s) data, cp1)"
  proof (cases "chunk_pos s < min (chunk_pos s + length data) (min_chunk s)")
    case True
    then have "cp1 = min (chunk_pos s + length data) (min_chunk s)" by (simp add: cp1_def)
    moreover have "nat (int (min (chunk_pos s + length data) (min_chunk s)) - int (chunk_pos s))
        = min (chunk_pos s + length data) (min_chunk s) - chunk_pos s" by simp
    ultimately show ?thesis using True by simp
  next
    case False
    then have c: "\<not> int (chunk_pos s) < int (min (chunk_pos s + length data) (min_chunk s))" by simp
    have e: "cp1 = chunk_pos s" using False by (auto simp: cp1_def min_def split: if_splits)
    show ?thesis unfolding e by (simp only: c if_False diff_self_eq_0 drop_0)
  qed
  show ?thesis
    unfolding next_point_def Let_def avg_chunk_mask_eq t m n pair
    by (simp add: cp1_def Let_def)
qed

lemma scan_at_max:
  "mx \<le> int cp \<Longrightarrow> scan upd m v mx wl w wp cp h data = (False, w, wp, cp, h, data)"
  by (cases data) simp_all

lemma next_point_step:
  assumes ok: "params_ok s" and lt: "chunk_pos s < max_chunk s"
    and fit: "chunk_pos s + length data < 2 ^ 31"
    and np: "next_point upd s data = (found, s', rest)"
  shows "(if found
          then \<exists>k. 0 < k \<and> k \<le> length data \<and> rest = drop k data \<and> chunk_pos s' = chunk_pos s + k \<and>
                 foldl (step upd) s (take k data) = emit s (chunk_pos s')
          else rest = [] \<and> foldl (step upd) s data = s')"
proof (cases "chunk_pos s < min_chunk s")
  case False
  then have ge: "min_chunk s \<le> chunk_pos s" by simp
  obtain bd w' wp' cp' h' rest' where sc:
    "scan upd (mask (avg_chunk_bits s mod 64)) (mask (avg_chunk_bits s mod 64))
       (int (min (chunk_pos s + length data) (max_chunk s))) (length (window s))
       (window s) (window_pos s) (chunk_pos s) (hash s) data = (bd, w', wp', cp', h', rest')"
    by (metis prod_cases6)
  have res: "(found, s', rest) =
      (if bd \<or> cp' \<ge> max_chunk s
       then (True, s\<lparr>window := replicate (length (window s)) 0, window_pos := 0, chunk_pos := cp', hash := 0\<rparr>, rest')
       else (False, s\<lparr>window := w', window_pos := wp', chunk_pos := cp', hash := h'\<rparr>, []))"
    using np ge sc by (simp add: next_point_eq[OF fit] Let_def)
  have "(if bd \<or> cp' \<ge> max_chunk s
          then \<exists>k. 0 < k \<and> k \<le> length data \<and> rest' = drop k data \<and> cp' = chunk_pos s + k \<and>
                 foldl (step upd) (s\<lparr>window := window s, window_pos := window_pos s, chunk_pos := chunk_pos s, hash := hash s\<rparr>) (take k data)
                   = emit s cp'
          else foldl (step upd) (s\<lparr>window := window s, window_pos := window_pos s, chunk_pos := chunk_pos s, hash := hash s\<rparr>) data
                 = s\<lparr>window := w', window_pos := wp', chunk_pos := cp', hash := h'\<rparr>)"
    by (rule scan_step[OF ge lt _ _ sc]) simp_all
  then show ?thesis using res by (auto split: if_splits)
next
  case True
  show ?thesis
  proof (cases "chunk_pos s + length data < min_chunk s")
    case short: True
    then have tl: "chunk_pos s + length data < max_chunk s" using ok by (simp add: params_ok_def)
    have "next_point upd s data = (False, s\<lparr>chunk_pos := chunk_pos s + length data\<rparr>, [])"
      using short tl True by (simp add: next_point_eq[OF fit] Let_def)
    moreover have "foldl (step upd) s data = s\<lparr>chunk_pos := chunk_pos s + length data\<rparr>"
      by (rule step_skip) (use short tl in simp_all)
    ultimately show ?thesis using np by simp
  next
    case long: False
    define k0 where "k0 = min_chunk s - chunk_pos s"
    have k0: "0 < k0" "k0 \<le> length data" using True long by (simp_all add: k0_def)
    show ?thesis
    proof (cases "min_chunk s = max_chunk s")
      case eq: True
      have "next_point upd s data =
          (True, s\<lparr>window := replicate (length (window s)) 0, window_pos := 0, chunk_pos := min_chunk s, hash := 0\<rparr>, drop k0 data)"
        using True long eq by (simp add: next_point_eq[OF fit] Let_def scan_at_max k0_def)
      moreover have "foldl (step upd) s (take k0 data) = emit s (max_chunk s)"
        by (rule step_skip_emit[OF True eq]) (use k0 in \<open>simp add: k0_def\<close>)
      ultimately show ?thesis using np k0 eq True
        by (auto intro!: exI[of _ k0] simp: k0_def)
    next
      case neq: False
      then have mlt: "min_chunk s < max_chunk s" using ok by (simp add: params_ok_def)
      let ?s1 = "s\<lparr>chunk_pos := min_chunk s\<rparr>"
      have skip: "foldl (step upd) s (take k0 data) = ?s1"
      proof -
        have "foldl (step upd) s (take k0 data) = s\<lparr>chunk_pos := chunk_pos s + length (take k0 data)\<rparr>"
          by (rule step_skip) (use k0 True mlt in \<open>simp_all add: k0_def\<close>)
        then show ?thesis using k0 True by (simp add: k0_def)
      qed
      obtain bd w' wp' cp' h' rest' where sc:
        "scan upd (mask (avg_chunk_bits s mod 64)) (mask (avg_chunk_bits s mod 64))
           (int (min (chunk_pos s + length data) (max_chunk s))) (length (window s))
           (window s) (window_pos s) (min_chunk s) (hash s) (drop k0 data) = (bd, w', wp', cp', h', rest')"
        by (metis prod_cases6)
      have res: "(found, s', rest) =
          (if bd \<or> cp' \<ge> max_chunk s
           then (True, s\<lparr>window := replicate (length (window s)) 0, window_pos := 0, chunk_pos := cp', hash := 0\<rparr>, rest')
           else (False, s\<lparr>window := w', window_pos := wp', chunk_pos := cp', hash := h'\<rparr>, []))"
        using np True long sc by (simp add: next_point_eq[OF fit] Let_def k0_def)
      have sc': "scan upd (mask (avg_chunk_bits ?s1 mod 64)) (mask (avg_chunk_bits ?s1 mod 64))
           (int (min (chunk_pos s + length data) (max_chunk s))) (length (window s))
           (window s) (window_pos s) (min_chunk s) (hash s) (drop k0 data) = (bd, w', wp', cp', h', rest')"
        using sc by simp
      have st: "(if bd \<or> cp' \<ge> max_chunk ?s1
          then \<exists>k. 0 < k \<and> k \<le> length (drop k0 data) \<and> rest' = drop k (drop k0 data) \<and> cp' = min_chunk s + k \<and>
                 foldl (step upd) (?s1\<lparr>window := window s, window_pos := window_pos s, chunk_pos := min_chunk s, hash := hash s\<rparr>) (take k (drop k0 data))
                   = emit ?s1 cp'
          else foldl (step upd) (?s1\<lparr>window := window s, window_pos := window_pos s, chunk_pos := min_chunk s, hash := hash s\<rparr>) (drop k0 data)
                 = ?s1\<lparr>window := w', window_pos := wp', chunk_pos := cp', hash := h'\<rparr>)"
        by (rule scan_step[OF _ _ _ _ sc']) (use mlt k0 True in \<open>simp_all add: k0_def\<close>)
      have s1: "?s1\<lparr>window := window s, window_pos := window_pos s, chunk_pos := min_chunk s, hash := hash s\<rparr> = ?s1"
        by simp
      show ?thesis
      proof (cases "bd \<or> cp' \<ge> max_chunk s")
        case b: True
        with st s1 obtain k where k: "0 < k" "k \<le> length (drop k0 data)" "rest' = drop k (drop k0 data)"
          "cp' = min_chunk s + k" "foldl (step upd) ?s1 (take k (drop k0 data)) = emit ?s1 cp'"
          by auto
        have "take (k0 + k) data = take k0 data @ take k (drop k0 data)"
          by (simp add: take_add)
        then have "foldl (step upd) s (take (k0 + k) data) = emit ?s1 cp'"
          using skip k(5) by simp
        moreover have "emit ?s1 cp' = emit s cp'" by (simp add: emit_def)
        ultimately show ?thesis using res b k(1-4) k0 True
          by (auto intro!: exI[of _ "k0 + k"] simp: k0_def add.commute)
      next
        case nb: False
        have "foldl (step upd) s data = foldl (step upd) s (take k0 data @ drop k0 data)" by simp
        also have "\<dots> = foldl (step upd) ?s1 (drop k0 data)"
          using skip by (simp only: foldl_append)
        finally show ?thesis using res nb st s1 by simp
      qed
    qed
  qed
qed


lemma next_point_found_state:
  assumes "next_point upd s data = (True, s', rest)"
  shows "s'\<lparr>chunk_pos := 0, split_points := split_points s' @ [chunk_pos s']\<rparr> = emit s (chunk_pos s')"
  using assms
  by (auto simp: next_point_def Let_def emit_def split: prod.splits if_splits)

lemma emit_fields [simp]:
  "min_chunk (emit s c) = min_chunk s" "max_chunk (emit s c) = max_chunk s"
  "avg_chunk_bits (emit s c) = avg_chunk_bits s"
  "calc_md5 (emit s c) = calc_md5 s" "calc_sha256 (emit s c) = calc_sha256 s"
  "md5_ctx (emit s c) = md5_ctx s" "sha256_ctx (emit s c) = sha256_ctx s"
  "chunk_pos (emit s c) = 0" "split_points (emit s c) = split_points s @ [c]"
  "window (emit s c) = replicate (length (window s)) 0" "window_pos (emit s c) = 0"
  "hash (emit s c) = 0"
  by (simp_all add: emit_def)

lemma step_fields [simp]:
  "min_chunk (step upd s b) = min_chunk s" "max_chunk (step upd s b) = max_chunk s"
  "avg_chunk_bits (step upd s b) = avg_chunk_bits s"
  "calc_md5 (step upd s b) = calc_md5 s" "calc_sha256 (step upd s b) = calc_sha256 s"
  "md5_ctx (step upd s b) = md5_ctx s" "sha256_ctx (step upd s b) = sha256_ctx s"
  "length (window (step upd s b)) = length (window s)"
  by (simp_all add: step_def Let_def)

lemma foldl_step_fields [simp]:
  "min_chunk (foldl (step upd) s bs) = min_chunk s" "max_chunk (foldl (step upd) s bs) = max_chunk s"
  "avg_chunk_bits (foldl (step upd) s bs) = avg_chunk_bits s"
  "calc_md5 (foldl (step upd) s bs) = calc_md5 s" "calc_sha256 (foldl (step upd) s bs) = calc_sha256 s"
  "md5_ctx (foldl (step upd) s bs) = md5_ctx s" "sha256_ctx (foldl (step upd) s bs) = sha256_ctx s"
  "length (window (foldl (step upd) s bs)) = length (window s)"
  by (induction bs arbitrary: s; simp)+

definition splitter_inv :: "splitter \<Rightarrow> bool" where
  "splitter_inv s = (0 < min_chunk s \<and> min_chunk s \<le> max_chunk s \<and> chunk_pos s < max_chunk s)"

lemma step_inv: "splitter_inv s \<Longrightarrow> splitter_inv (step upd s b)"
  by (auto simp: splitter_inv_def step_def Let_def)

lemma foldl_step_inv: "splitter_inv s \<Longrightarrow> splitter_inv (foldl (step upd) s bs)"
  by (induction bs arbitrary: s) (simp_all add: step_inv)

lemma push_loop_step:
  "splitter_inv s \<Longrightarrow> chunk_pos s + length data < 2 ^ 31 \<Longrightarrow>
   push_loop upd s data = Some (foldl (step upd) s data)"
proof (induction "length data" arbitrary: s data rule: less_induct)
  case less
  obtain found s' rest where np: "next_point upd s data = (found, s', rest)"
    by (metis prod_cases3)
  have ok: "params_ok s" "chunk_pos s < max_chunk s"
    using less.prems by (simp_all add: splitter_inv_def params_ok_def)
  note ns = next_point_step[OF ok less.prems(2) np]
  show ?case
  proof (cases found)
    case False
    then show ?thesis using ns np by (subst push_loop.simps) simp
  next
    case True
    with ns obtain k where k: "0 < k" "k \<le> length data" "rest = drop k data"
      "foldl (step upd) s (take k data) = emit s (chunk_pos s')" by auto
    have e: "s'\<lparr>chunk_pos := 0, split_points := split_points s' @ [chunk_pos s']\<rparr> = emit s (chunk_pos s')"
      using np True by (auto intro: next_point_found_state)
    have inv: "splitter_inv (emit s (chunk_pos s'))"
      using less.prems by (simp add: splitter_inv_def)
    have "push_loop upd s data = push_loop upd (emit s (chunk_pos s')) rest"
      using np True e by (subst push_loop.simps) simp
    also have "\<dots> = Some (foldl (step upd) (emit s (chunk_pos s')) rest)"
      by (rule less.hyps) (use k inv less.prems(2) in simp_all)
    also have "foldl (step upd) (emit s (chunk_pos s')) rest = foldl (step upd) s (take k data @ drop k data)"
      using k by (simp only: foldl_append)
    finally show ?thesis by simp
  qed
qed

definition absorb :: "splitter \<Rightarrow> byte list \<Rightarrow> splitter" where
  "absorb s data =
     (let s1 = (if calc_md5 s then s\<lparr>md5_ctx := EVP_DigestUpdate (md5_ctx s) data\<rparr> else s)
      in (if calc_sha256 s1 then s1\<lparr>sha256_ctx := EVP_DigestUpdate (sha256_ctx s1) data\<rparr> else s1))"

lemma push_absorb: "push upd s data = push_loop upd (absorb s data) data"
  by (simp add: push_def absorb_def Let_def)

lemma DigestUpdate_append: "EVP_DigestUpdate (EVP_DigestUpdate c xs) ys = EVP_DigestUpdate c (xs @ ys)"
  by (cases c) simp_all

lemma absorb_absorb: "absorb (absorb s xs) ys = absorb s (xs @ ys)"
  by (simp add: absorb_def Let_def DigestUpdate_append)

lemma step_md5: "step upd (s\<lparr>md5_ctx := c\<rparr>) b = (step upd s b)\<lparr>md5_ctx := c\<rparr>"
  by (simp add: step_def emit_def Let_def)

lemma step_sha256: "step upd (s\<lparr>sha256_ctx := c\<rparr>) b = (step upd s b)\<lparr>sha256_ctx := c\<rparr>"
  by (simp add: step_def emit_def Let_def)

lemma step_absorb: "step upd (absorb s xs) b = absorb (step upd s b) xs"
  by (simp add: absorb_def Let_def step_md5 step_sha256)

lemma foldl_step_absorb: "foldl (step upd) (absorb s xs) bs = absorb (foldl (step upd) s bs) xs"
  by (induction bs arbitrary: s) (simp_all add: step_absorb)

lemma absorb_inv: "splitter_inv (absorb s xs) = splitter_inv s"
  by (simp add: absorb_def splitter_inv_def Let_def)

subsection \<open>Every push returns\<close>

text \<open>
  Whatever the length of the buffer, also where the sum of \<open>_next_point\<close> wraps around, the
  loop of \<open>push\<close> ends: every boundary found consumes at least one byte. It leaves the
  parameters and the digest contexts alone and the position in the chunk below
  \<open>max_chunk\<close>.
\<close>

definition same_config :: "splitter \<Rightarrow> splitter \<Rightarrow> bool" where
  "same_config s s' =
     (min_chunk s' = min_chunk s \<and> max_chunk s' = max_chunk s \<and>
      avg_chunk_bits s' = avg_chunk_bits s \<and> calc_md5 s' = calc_md5 s \<and>
      calc_sha256 s' = calc_sha256 s \<and> md5_ctx s' = md5_ctx s \<and> sha256_ctx s' = sha256_ctx s)"

lemma int_wrap_le: "0 \<le> x \<Longrightarrow> int_wrap x \<le> x"
proof -
  assume "0 \<le> x"
  then have "(x + 2 ^ 31) mod 2 ^ 32 \<le> x + 2 ^ 31"
    by (intro zmod_le_nonneg_dividend) simp
  then show ?thesis by (simp add: int_wrap_def)
qed

lemma scan_progress:
  "scan upd m v mx wl w wp cp h data = (bd, w', wp', cp', h', rest) \<Longrightarrow>
   cp' + length rest = cp + length data \<and> length rest \<le> length data \<and>
   (bd \<longrightarrow> length rest < length data)"
proof (induction data arbitrary: w wp cp h)
  case Nil
  then show ?case by simp
next
  case (Cons b data)
  show ?case
  proof (cases "int cp < mx")
    case False
    then show ?thesis using Cons.prems by simp
  next
    case True
    show ?thesis
    proof (cases "(upd h b (w ! wp) AND m) = v")
      case hit: True
      then show ?thesis using Cons.prems True by (simp add: Let_def)
    next
      case miss: False
      have "scan upd m v mx wl (w[wp := b]) (if wp + 1 \<ge> wl then 0 else wp + 1) (cp + 1)
              (upd h b (w ! wp)) data = (bd, w', wp', cp', h', rest)"
        using Cons.prems True miss by (auto simp: Let_def)
      from Cons.IH[OF this] show ?thesis by simp
    qed
  qed
qed

lemma next_point_progress:
  assumes lt: "chunk_pos s < max_chunk s"
    and np: "next_point upd s data = (found, s', rest)"
  shows "(found \<longrightarrow> length rest < length data) \<and> (\<not> found \<longrightarrow> chunk_pos s' < max_chunk s) \<and>
         same_config s s' \<and> split_points s' = split_points s"
proof -
  define total where "total = int_wrap (int (chunk_pos s) + int (length data))"
  define mn where "mn = (if total < int (min_chunk s) then total else int (min_chunk s))"
  define mx where "mx = (if total < int (max_chunk s) then total else int (max_chunk s))"
  define data1 where "data1 = (if int (chunk_pos s) < mn then drop (nat (mn - int (chunk_pos s))) data else data)"
  define cp1 where "cp1 = (if int (chunk_pos s) < mn then nat mn else chunk_pos s)"
  obtain bd w' wp' cp' h' rest' where sc:
    "scan upd (NOT (push_bit (avg_chunk_bits s mod 64) (NOT 0)))
        ((NOT 0) AND NOT (push_bit (avg_chunk_bits s mod 64) (NOT 0))) mx (length (window s))
        (window s) (window_pos s) cp1 (hash s) data1 = (bd, w', wp', cp', h', rest')"
    by (metis prod_cases6)
  have res: "(found, s', rest) =
      (if bd \<or> cp' \<ge> max_chunk s
       then (True, s\<lparr>window := replicate (length (window s)) 0, window_pos := 0, chunk_pos := cp', hash := 0\<rparr>, rest')
       else (False, s\<lparr>window := w', window_pos := wp', chunk_pos := cp', hash := h'\<rparr>, []))"
  proof (cases "int (chunk_pos s) < mn")
    case True
    then show ?thesis
      using np sc unfolding next_point_def Let_def total_def[symmetric] mn_def[symmetric] mx_def[symmetric]
      by (simp add: data1_def cp1_def)
  next
    case False
    then show ?thesis
      using np sc unfolding next_point_def Let_def total_def[symmetric] mn_def[symmetric] mx_def[symmetric]
      by (simp add: data1_def cp1_def)
  qed
  have tot: "total \<le> int (chunk_pos s) + int (length data)"
    unfolding total_def by (rule int_wrap_le) simp
  have mnle: "mn \<le> total" by (simp add: mn_def)
  have skip: "chunk_pos s < cp1 \<longrightarrow> length data1 < length data"
  proof
    assume "chunk_pos s < cp1"
    then have c: "int (chunk_pos s) < mn" by (auto simp: cp1_def split: if_splits)
    then have "0 < length data" using tot mnle by auto
    moreover have "0 < nat (mn - int (chunk_pos s))" using c by simp
    ultimately show "length data1 < length data" using c by (simp add: data1_def)
  qed
  have le1: "length data1 \<le> length data" by (simp add: data1_def)
  have ge1: "chunk_pos s \<le> cp1" by (auto simp: cp1_def)
  note pr = scan_progress[OF sc]
  have a: "found \<longrightarrow> length rest < length data"
  proof
    assume f: found
    then have fr: "bd \<or> cp' \<ge> max_chunk s" "rest = rest'" using res by (auto split: if_splits)
    show "length rest < length data"
    proof (cases bd)
      case True
      then show ?thesis using pr le1 fr by simp
    next
      case False
      then have "cp' \<ge> max_chunk s" using fr by simp
      then have "chunk_pos s < cp'" using lt by simp
      then show ?thesis using pr skip le1 ge1 fr(2) by (cases "chunk_pos s < cp1") auto
    qed
  qed
  have b: "\<not> found \<longrightarrow> chunk_pos s' < max_chunk s" using res by (auto split: if_splits)
  have c: "same_config s s' \<and> split_points s' = split_points s"
    using res by (auto simp: same_config_def split: if_splits)
  show ?thesis using a b c by blast
qed

lemma same_config_refl: "same_config s s"
  by (simp add: same_config_def)

lemma same_config_trans: "same_config a b \<Longrightarrow> same_config b c \<Longrightarrow> same_config a c"
  by (simp add: same_config_def)

lemma push_loop_total:
  "splitter_inv s \<Longrightarrow> \<exists>s'. push_loop upd s data = Some s' \<and> splitter_inv s' \<and> same_config s s'"
proof (induction "length data" arbitrary: s data rule: less_induct)
  case less
  obtain found s' rest where np: "next_point upd s data = (found, s', rest)"
    by (metis prod_cases3)
  have lt: "chunk_pos s < max_chunk s" using less.prems by (simp add: splitter_inv_def)
  note pr = next_point_progress[OF lt np]
  show ?case
  proof (cases found)
    case False
    then have "push_loop upd s data = Some s'" using np by (subst push_loop.simps) simp
    moreover have "splitter_inv s'"
      using pr False less.prems by (simp add: splitter_inv_def same_config_def)
    ultimately show ?thesis using pr by blast
  next
    case True
    let ?s1 = "s'\<lparr>chunk_pos := 0, split_points := split_points s' @ [chunk_pos s']\<rparr>"
    have inv1: "splitter_inv ?s1" using pr less.prems by (simp add: splitter_inv_def same_config_def)
    have c1: "same_config s ?s1" using pr by (simp add: same_config_def)
    have "length rest < length data" using pr True by simp
    from less.hyps[OF this inv1] obtain s2 where
      s2: "push_loop upd ?s1 rest = Some s2" "splitter_inv s2" "same_config ?s1 s2" by blast
    have "push_loop upd s data = Some s2"
      using np True s2(1) by (subst push_loop.simps) simp
    then show ?thesis using s2(2) same_config_trans[OF c1 s2(3)] by blast
  qed
qed

lemma push_total:
  assumes "splitter_inv s"
  shows "\<exists>s'. push upd s data = Some s' \<and> splitter_inv s' \<and> same_config (absorb s data) s'"
  using push_loop_total[of "absorb s data" upd data] assms
  by (simp add: push_absorb absorb_inv)

lemma push_all_total:
  "splitter_inv s \<Longrightarrow>
   \<exists>s'. push_all upd s segs = Some s' \<and> splitter_inv s' \<and> same_config (absorb s (concat segs)) s'"
proof (induction segs arbitrary: s)
  case Nil
  have "absorb s [] = s" by (cases "md5_ctx s"; cases "sha256_ctx s"; simp add: absorb_def Let_def)
  then show ?case using Nil by (simp add: same_config_refl)
next
  case (Cons d ds)
  obtain s1 where s1: "push upd s d = Some s1" "splitter_inv s1" "same_config (absorb s d) s1"
    using push_total[OF Cons.prems] by blast
  obtain s2 where s2: "push_all upd s1 ds = Some s2" "splitter_inv s2" "same_config (absorb s1 (concat ds)) s2"
    using Cons.IH[OF s1(2)] by blast
  have "same_config (absorb (absorb s d) (concat ds)) (absorb s1 (concat ds))"
    using s1(3) by (simp add: same_config_def absorb_def Let_def)
  then have "same_config (absorb s (d @ concat ds)) s2"
    using s2(3) by (simp add: absorb_absorb same_config_trans)
  then show ?case using s1(1) s2(1,2) by simp
qed

subsection \<open>Pushes that fit an int\<close>

text \<open>
  \<open>fits upd s segs\<close>: at every push of the sequence \<open>segs\<close>, begun in state \<open>s\<close>, the sum
  \<open>chunk_pos + len\<close> stays below \<open>2^31\<close>.
\<close>

fun fits :: "rabin_update \<Rightarrow> splitter \<Rightarrow> byte list list \<Rightarrow> bool" where
  "fits upd s [] = True"
| "fits upd s (d # ds) = (chunk_pos s + length d < 2 ^ 31 \<and> fits upd (foldl (step upd) s d) ds)"

lemma fits_absorb: "fits upd (absorb s xs) segs = fits upd s segs"
proof (induction segs arbitrary: s)
  case Nil
  then show ?case by simp
next
  case (Cons d ds)
  have "chunk_pos (absorb s xs) = chunk_pos s" by (simp add: absorb_def Let_def)
  then show ?case using Cons.IH[of "foldl (step upd) s d"] by (simp add: foldl_step_absorb)
qed

lemma push_step:
  "splitter_inv s \<Longrightarrow> chunk_pos s + length data < 2 ^ 31 \<Longrightarrow>
   push upd s data = Some (absorb (foldl (step upd) s data) data)"
proof -
  assume inv: "splitter_inv s" and fit: "chunk_pos s + length data < 2 ^ 31"
  have "chunk_pos (absorb s data) = chunk_pos s" by (simp add: absorb_def Let_def)
  then show ?thesis
    using inv fit by (simp add: push_absorb push_loop_step absorb_inv foldl_step_absorb)
qed

lemma push_all_step:
  "splitter_inv s \<Longrightarrow> fits upd s segs \<Longrightarrow>
   push_all upd s segs = Some (absorb (foldl (step upd) s (concat segs)) (concat segs))"
proof (induction segs arbitrary: s)
  case Nil
  then show ?case by (cases "md5_ctx s"; cases "sha256_ctx s"; simp add: absorb_def Let_def)
next
  case (Cons d ds)
  let ?s1 = "absorb (foldl (step upd) s d) d"
  have inv1: "splitter_inv ?s1" using Cons.prems by (simp add: absorb_inv foldl_step_inv)
  have fit1: "fits upd ?s1 ds" using Cons.prems(2) by (simp add: fits_absorb)
  have "push_all upd s (d # ds) = push_all upd ?s1 ds"
    using Cons.prems by (simp add: push_step)
  also have "\<dots> = Some (absorb (foldl (step upd) ?s1 (concat ds)) (concat ds))"
    by (rule Cons.IH[OF inv1 fit1])
  finally show ?case by (simp add: foldl_step_absorb absorb_absorb)
qed




lemma fits_each:
  "splitter_inv s \<Longrightarrow> \<forall>d\<in>set segs. max_chunk s + length d \<le> 2 ^ 31 \<Longrightarrow> fits upd s segs"
proof (induction segs arbitrary: s)
  case Nil
  then show ?case by simp
next
  case (Cons d ds)
  have inv1: "splitter_inv (foldl (step upd) s d)" using Cons.prems(1) by (rule foldl_step_inv)
  have "fits upd (foldl (step upd) s d) ds"
    by (rule Cons.IH[OF inv1]) (use Cons.prems(2) in simp)
  moreover have "chunk_pos s + length d < 2 ^ 31"
    using Cons.prems by (simp add: splitter_inv_def)
  ultimately show ?case by simp
qed

lemma Splitter_inv: "Splitter mn mx bits md5 sha256 = Some s \<Longrightarrow> splitter_inv s"
  by (auto simp: Splitter_def splitter_inv_def split: if_splits)

subsection \<open>The boundary rule\<close>

text \<open>
  The rule by which a chunk ends, written once per position and independently of the
  buffer-wise loop: \<open>rolling_hash upd bs\<close> is the hash after shifting the bytes \<open>bs\<close>, in
  order, into a zeroed window of \<open>NB_RABIN_WINDOW_LEN\<close> bytes (each byte replaces the
  oldest one, which is shifted out); \<open>chunk_mask\<close> is \<open>(1 << avg_chunk_bits) - 1\<close>.
\<close>


definition roll :: "rabin_update \<Rightarrow> byte list \<times> nat \<times> rabin_hash \<Rightarrow> byte \<Rightarrow> byte list \<times> nat \<times> rabin_hash" where
  "roll upd st b =
     (case st of (w, wp, h) \<Rightarrow>
        (w[wp := b], (if wp + 1 \<ge> length w then 0 else wp + 1), upd h b (w ! wp)))"

definition rolling_hash :: "rabin_update \<Rightarrow> byte list \<Rightarrow> rabin_hash" where
  "rolling_hash upd bs = snd (snd (foldl (roll upd) (replicate NB_RABIN_WINDOW_LEN 0, 0, 0) bs))"

definition chunk_mask :: "nat \<Rightarrow> rabin_hash" where
  "chunk_mask bits = push_bit bits 1 - 1"

definition boundary_at :: "rabin_update \<Rightarrow> nat \<Rightarrow> nat \<Rightarrow> nat \<Rightarrow> byte list \<Rightarrow> nat \<Rightarrow> bool" where
  "boundary_at upd mn mx bits chunk p =
     ((mn < p \<and> (rolling_hash upd (take (p - mn) (drop mn chunk)) AND chunk_mask bits) = chunk_mask bits)
      \<or> p = mx)"

definition first_boundary :: "rabin_update \<Rightarrow> nat \<Rightarrow> nat \<Rightarrow> nat \<Rightarrow> byte list \<Rightarrow> nat option" where
  "first_boundary upd mn mx bits data = find (boundary_at upd mn mx bits data) [1..<Suc (length data)]"

lemma find_upt_Some:
  "find P [a..<b] = Some p \<longleftrightarrow> (a \<le> p \<and> p < b \<and> P p \<and> (\<forall>q. a \<le> q \<and> q < p \<longrightarrow> \<not> P q))"
proof -
  have nth: "[a..<b] ! i = a + i" if "i < b - a" for i using that by simp
  show ?thesis
  proof
    assume "find P [a..<b] = Some p"
    then obtain i where i: "i < b - a" "P ([a..<b] ! i)" "p = [a..<b] ! i" "\<forall>j<i. \<not> P ([a..<b] ! j)"
      unfolding find_Some_iff by auto
    have p: "p = a + i" using i(1,3) nth by simp
    have "\<not> P q" if "a \<le> q" "q < p" for q
    proof -
      have "q - a < i" using that p by simp
      then have "\<not> P ([a..<b] ! (q - a))" using i(4) by blast
      moreover have "[a..<b] ! (q - a) = q" using that p i(1) by simp
      ultimately show ?thesis by simp
    qed
    then show "a \<le> p \<and> p < b \<and> P p \<and> (\<forall>q. a \<le> q \<and> q < p \<longrightarrow> \<not> P q)"
      using i p by auto
  next
    assume h: "a \<le> p \<and> p < b \<and> P p \<and> (\<forall>q. a \<le> q \<and> q < p \<longrightarrow> \<not> P q)"
    have "p - a < length [a..<b] \<and> P ([a..<b] ! (p - a)) \<and> p = [a..<b] ! (p - a) \<and>
          (\<forall>j<p - a. \<not> P ([a..<b] ! j))"
      using h by auto
    then show "find P [a..<b] = Some p"
      unfolding find_Some_iff by blast
  qed
qed

lemma first_boundary_Some:
  "first_boundary upd mn mx bits data = Some p \<longleftrightarrow>
     (0 < p \<and> p \<le> length data \<and> boundary_at upd mn mx bits data p \<and>
      (\<forall>q. 0 < q \<and> q < p \<longrightarrow> \<not> boundary_at upd mn mx bits data q))"
  unfolding first_boundary_def find_upt_Some by auto

lemma first_boundary_None:
  "first_boundary upd mn mx bits data = None \<longleftrightarrow>
     (\<forall>q. 0 < q \<and> q \<le> length data \<longrightarrow> \<not> boundary_at upd mn mx bits data q)"
  unfolding first_boundary_def find_None_iff by (auto simp del: upt_Suc)

function chunk_lengths :: "rabin_update \<Rightarrow> nat \<Rightarrow> nat \<Rightarrow> nat \<Rightarrow> byte list \<Rightarrow> nat list" where
  "chunk_lengths upd mn mx bits data =
     (case first_boundary upd mn mx bits data of
        None \<Rightarrow> []
      | Some p \<Rightarrow> p # chunk_lengths upd mn mx bits (drop p data))"
  by pat_completeness auto
termination
  by (relation "measure (\<lambda>(upd, mn, mx, bits, data). length data)")
     (auto simp: first_boundary_Some)

declare chunk_lengths.simps [simp del]


lemma chunk_mask_eq: "chunk_mask bits = mask bits"
  by (simp add: chunk_mask_def mask_eq_exp_minus_1 push_bit_eq_mult)

lemma boundary_at_prefix:
  "p \<le> length xs \<Longrightarrow> boundary_at upd mn mx bits (xs @ ys) p = boundary_at upd mn mx bits xs p"
  by (simp add: boundary_at_def)

definition advance :: "rabin_update \<Rightarrow> splitter \<Rightarrow> byte list \<Rightarrow> splitter" where
  "advance upd s pre =
     (case foldl (roll upd) (replicate NB_RABIN_WINDOW_LEN 0, 0, 0) (drop (min_chunk s) pre) of
        (w, wp, h) \<Rightarrow> s\<lparr>window := w, window_pos := wp, chunk_pos := length pre, hash := h\<rparr>)"

lemma roll_length: "length (fst (foldl (roll upd) st bs)) = length (fst st)"
  by (induction bs arbitrary: st) (auto simp: roll_def split: prod.splits)

lemma step_advance:
  assumes "0 < min_chunk s" "min_chunk s \<le> max_chunk s" "length pre < max_chunk s"
  shows "step upd (advance upd s pre) b =
         (if boundary_at upd (min_chunk s) (max_chunk s) (avg_chunk_bits s mod 64) (pre @ [b]) (Suc (length pre))
          then emit (advance upd s pre) (Suc (length pre))
          else advance upd s (pre @ [b]))"
proof (cases "length pre < min_chunk s")
  case True
  then show ?thesis using assms
    by (auto simp: step_def advance_def boundary_at_def Let_def)
next
  case False
  obtain w wp h where st: "foldl (roll upd) (replicate NB_RABIN_WINDOW_LEN 0, 0, 0) (drop (min_chunk s) pre) = (w, wp, h)"
    by (metis prod_cases3)
  have d: "drop (min_chunk s) (pre @ [b]) = drop (min_chunk s) pre @ [b]" using False by simp
  have t: "take (Suc (length pre) - min_chunk s) (drop (min_chunk s) pre @ [b]) = drop (min_chunk s) pre @ [b]"
    using False by simp
  have rh: "rolling_hash upd (drop (min_chunk s) pre @ [b]) = upd h b (w ! wp)"
    using st by (simp add: rolling_hash_def roll_def)
  show ?thesis using False assms st
    by (auto simp: step_def advance_def boundary_at_def Let_def d t rh chunk_mask_eq roll_def)
qed

lemma emit_advance: "emit (advance upd s pre) p = emit (s\<lparr>window := replicate NB_RABIN_WINDOW_LEN 0\<rparr>) p"
proof -
  have "length (fst (foldl (roll upd) (replicate NB_RABIN_WINDOW_LEN 0, 0, 0) (drop (min_chunk s) pre))) = NB_RABIN_WINDOW_LEN"
    by (simp add: roll_length)
  then show ?thesis
    by (auto simp: emit_def advance_def split: prod.splits)
qed

lemma advance_fields [simp]:
  "min_chunk (advance upd s pre) = min_chunk s" "max_chunk (advance upd s pre) = max_chunk s"
  "avg_chunk_bits (advance upd s pre) = avg_chunk_bits s"
  "chunk_pos (advance upd s pre) = length pre" "split_points (advance upd s pre) = split_points s"
  by (simp_all add: advance_def split: prod.splits)

lemma foldl_step_advance:
  assumes "0 < min_chunk s" "min_chunk s \<le> max_chunk s" "length pre < max_chunk s"
    and "\<forall>q. length pre < q \<and> q \<le> length pre + length data \<longrightarrow>
           \<not> boundary_at upd (min_chunk s) (max_chunk s) (avg_chunk_bits s mod 64) (pre @ data) q"
  shows "foldl (step upd) (advance upd s pre) data = advance upd s (pre @ data)"
  using assms
proof (induction data arbitrary: pre)
  case Nil
  then show ?case by simp
next
  case (Cons b data)
  have nb: "\<not> boundary_at upd (min_chunk s) (max_chunk s) (avg_chunk_bits s mod 64) ((pre @ [b]) @ data) (Suc (length pre))"
    using Cons.prems(4) by simp
  then have nb1: "\<not> boundary_at upd (min_chunk s) (max_chunk s) (avg_chunk_bits s mod 64) (pre @ [b]) (Suc (length pre))"
    by (subst (asm) boundary_at_prefix) simp_all
  then have ne: "Suc (length pre) \<noteq> max_chunk s" by (auto simp: boundary_at_def)
  have st: "step upd (advance upd s pre) b = advance upd s (pre @ [b])"
    using step_advance[OF Cons.prems(1-3), of upd b] nb1 by simp
  have "foldl (step upd) (advance upd s (pre @ [b])) data = advance upd s ((pre @ [b]) @ data)"
    by (rule Cons.IH) (use Cons.prems ne in auto)
  then show ?case using st by simp
qed

lemma boundary_at_app_take:
  "p \<le> length pre + n \<Longrightarrow>
   boundary_at upd mn mx bits (pre @ take n data) p = boundary_at upd mn mx bits (pre @ data) p"
proof -
  assume p: "p \<le> length pre + n"
  have "pre @ take n data = take (length pre + n) (pre @ data)" by simp
  moreover have "take (p - mn) (drop mn (take (length pre + n) (pre @ data))) = take (p - mn) (drop mn (pre @ data))"
    using p by (simp only: drop_take take_take) (simp add: min_def)
  ultimately show ?thesis by (simp only: boundary_at_def)
qed

lemma foldl_step_first:
  assumes "0 < min_chunk s" "min_chunk s \<le> max_chunk s" "length pre < max_chunk s"
    and "length pre < p" "p \<le> length pre + length data"
    and "boundary_at upd (min_chunk s) (max_chunk s) (avg_chunk_bits s mod 64) (pre @ data) p"
    and "\<forall>q. length pre < q \<and> q < p \<longrightarrow>
           \<not> boundary_at upd (min_chunk s) (max_chunk s) (avg_chunk_bits s mod 64) (pre @ data) q"
  shows "foldl (step upd) (advance upd s pre) (take (p - length pre) data)
         = emit (s\<lparr>window := replicate NB_RABIN_WINDOW_LEN 0\<rparr>) p"
proof -
  define j where "j = p - length pre - 1"
  define xs where "xs = take j data"
  have j: "j < length data" "p = Suc (length pre + j)" using assms(4,5) by (simp_all add: j_def)
  have lx: "length xs = j" using j(1) by (simp add: xs_def)
  have tk: "take (p - length pre) data = xs @ [data ! j]"
    using j by (simp add: take_Suc_conv_app_nth xs_def)
  have nbq: "\<not> boundary_at upd (min_chunk s) (max_chunk s) (avg_chunk_bits s mod 64) (pre @ xs) q"
    if "length pre < q" "q \<le> length pre + j" for q
  proof -
    have "q < p" using that j by simp
    then have "\<not> boundary_at upd (min_chunk s) (max_chunk s) (avg_chunk_bits s mod 64) (pre @ data) q"
      using assms(7) that by blast
    then show ?thesis
      unfolding xs_def using boundary_at_app_take[OF that(2)] by blast
  qed
  have a1: "foldl (step upd) (advance upd s pre) xs = advance upd s (pre @ xs)"
    by (rule foldl_step_advance[OF assms(1-3)]) (use nbq lx in blast)
  have lt: "length (pre @ xs) < max_chunk s"
  proof (cases "j = 0")
    case True
    then show ?thesis using assms(3) lx by simp
  next
    case False
    have "\<not> boundary_at upd (min_chunk s) (max_chunk s) (avg_chunk_bits s mod 64) (pre @ xs) (length pre + j)"
      using nbq[of "length pre + j"] False by simp
    then have "length pre + j \<noteq> max_chunk s" by (auto simp: boundary_at_def)
    moreover have "\<not> max_chunk s < length pre + j"
    proof
      assume m: "max_chunk s < length pre + j"
      then have "\<not> boundary_at upd (min_chunk s) (max_chunk s) (avg_chunk_bits s mod 64) (pre @ xs) (max_chunk s)"
        using nbq[of "max_chunk s"] assms(3) by simp
      then show False by (simp add: boundary_at_def)
    qed
    ultimately show ?thesis using lx by simp
  qed
  have "take (Suc j) data = xs @ [data ! j]" using j(1) by (simp add: take_Suc_conv_app_nth xs_def)
  then have "boundary_at upd (min_chunk s) (max_chunk s) (avg_chunk_bits s mod 64) (pre @ xs @ [data ! j]) p
      = boundary_at upd (min_chunk s) (max_chunk s) (avg_chunk_bits s mod 64) (pre @ data) p"
    using boundary_at_app_take[of p pre "Suc j" upd "min_chunk s" "max_chunk s" "avg_chunk_bits s mod 64" data] j(2)
    by simp
  then have b: "boundary_at upd (min_chunk s) (max_chunk s) (avg_chunk_bits s mod 64) ((pre @ xs) @ [data ! j]) (Suc (length (pre @ xs)))"
    using assms(6) j(2) lx by simp
  have "step upd (advance upd s (pre @ xs)) (data ! j) = emit (advance upd s (pre @ xs)) (Suc (length (pre @ xs)))"
    using step_advance[OF assms(1,2) lt, of upd "data ! j"] b by (simp only: if_True)
  then show ?thesis using a1 tk j(2) lx by (simp add: emit_advance)
qed

definition fresh :: "splitter \<Rightarrow> bool" where
  "fresh s = (0 < min_chunk s \<and> min_chunk s \<le> max_chunk s \<and>
              window s = replicate NB_RABIN_WINDOW_LEN 0 \<and> window_pos s = 0 \<and> chunk_pos s = 0 \<and> hash s = 0)"

lemma fresh_advance: "fresh s \<Longrightarrow> advance upd s [] = s"
  by (simp add: fresh_def advance_def)

lemma fresh_emit: "fresh s \<Longrightarrow> fresh (emit s p)"
  by (simp add: fresh_def NB_RABIN_WINDOW_LEN_def)

lemma foldl_step_chunk_lengths:
  "fresh s \<Longrightarrow> mn = min_chunk s \<Longrightarrow> mx = max_chunk s \<Longrightarrow> bits = avg_chunk_bits s mod 64 \<Longrightarrow>
   split_points (foldl (step upd) s data) = split_points s @ chunk_lengths upd mn mx bits data \<and>
   chunk_pos (foldl (step upd) s data) + sum_list (chunk_lengths upd mn mx bits data) = length data"
proof (induction upd mn mx bits data arbitrary: s rule: chunk_lengths.induct)
  case (1 upd mn mx bits data)
  have par: "0 < min_chunk s" "min_chunk s \<le> max_chunk s" "length ([]::byte list) < max_chunk s"
    using "1.prems"(1) by (simp_all add: fresh_def)
  show ?case
  proof (cases "first_boundary upd mn mx bits data")
    case None
    then have "\<forall>q. length ([]::byte list) < q \<and> q \<le> length ([]::byte list) + length data \<longrightarrow>
        \<not> boundary_at upd (min_chunk s) (max_chunk s) (avg_chunk_bits s mod 64) ([] @ data) q"
      using "1.prems" by (simp add: first_boundary_None)
    from foldl_step_advance[OF par this]
    have "foldl (step upd) s data = advance upd s data"
      using "1.prems"(1) by (simp add: fresh_advance)
    then show ?thesis using None by (simp add: chunk_lengths.simps[of upd mn mx bits data])
  next
    case (Some p)
    then have p: "0 < p" "p \<le> length data" "boundary_at upd mn mx bits data p"
      "\<forall>q. 0 < q \<and> q < p \<longrightarrow> \<not> boundary_at upd mn mx bits data q"
      by (simp_all add: first_boundary_Some)
    have "foldl (step upd) (advance upd s []) (take (p - length ([]::byte list)) data)
         = emit (s\<lparr>window := replicate NB_RABIN_WINDOW_LEN 0\<rparr>) p"
      by (rule foldl_step_first[OF par]) (use p "1.prems" in simp_all)
    moreover have "s\<lparr>window := replicate NB_RABIN_WINDOW_LEN 0\<rparr> = s"
      using "1.prems"(1) by (simp add: fresh_def)
    ultimately have fst: "foldl (step upd) s (take p data) = emit s p"
      using "1.prems"(1) by (simp add: fresh_advance)
    have "foldl (step upd) s data = foldl (step upd) s (take p data @ drop p data)" by simp
    also have "\<dots> = foldl (step upd) (emit s p) (drop p data)"
      using fst by (simp only: foldl_append)
    finally have eq: "foldl (step upd) s data = foldl (step upd) (emit s p) (drop p data)" .
    have IH: "split_points (foldl (step upd) (emit s p) (drop p data))
          = split_points (emit s p) @ chunk_lengths upd mn mx bits (drop p data) \<and>
        chunk_pos (foldl (step upd) (emit s p) (drop p data)) + sum_list (chunk_lengths upd mn mx bits (drop p data))
          = length (drop p data)"
      by (rule "1.IH"[OF Some]) (use "1.prems" in \<open>simp_all add: fresh_emit\<close>)
    show ?thesis using IH eq Some p(2) by (auto simp: chunk_lengths.simps[of upd mn mx bits data])
  qed
qed


definition example_update :: rabin_update where
  "example_update h byte_in byte_out = push_bit 1 h XOR ucast byte_in XOR push_bit 16 (ucast byte_out)"

lemma step_split_bounds:
  assumes "splitter_inv s" "\<forall>c\<in>set (split_points s). min_chunk s \<le> c \<and> c \<le> max_chunk s"
  shows "\<forall>c\<in>set (split_points (step upd s b)). min_chunk s \<le> c \<and> c \<le> max_chunk s"
  using assms by (auto simp: step_def splitter_inv_def Let_def)

lemma foldl_step_split_bounds:
  assumes "splitter_inv s" "\<forall>c\<in>set (split_points s). min_chunk s \<le> c \<and> c \<le> max_chunk s"
  shows "\<forall>c\<in>set (split_points (foldl (step upd) s bs)). min_chunk s \<le> c \<and> c \<le> max_chunk s"
  using assms
proof (induction bs arbitrary: s)
  case Nil
  then show ?case by simp
next
  case (Cons b bs)
  have i1: "splitter_inv (step upd s b)" using Cons.prems(1) by (rule step_inv)
  have i2: "\<forall>c\<in>set (split_points (step upd s b)).
          min_chunk (step upd s b) \<le> c \<and> c \<le> max_chunk (step upd s b)"
    using step_split_bounds[OF Cons.prems] by simp
  from Cons.IH[OF i1 i2] show ?case by simp
qed

lemma step_total:
  "sum_list (split_points (step upd s b)) + chunk_pos (step upd s b)
   = Suc (sum_list (split_points s) + chunk_pos s)"
  by (simp add: step_def Let_def)

lemma foldl_step_total:
  "sum_list (split_points (foldl (step upd) s bs)) + chunk_pos (foldl (step upd) s bs)
   = sum_list (split_points s) + chunk_pos s + length bs"
  by (induction bs arbitrary: s) (simp_all add: step_total)

lemma absorb_fields [simp]:
  "min_chunk (absorb s d) = min_chunk s" "max_chunk (absorb s d) = max_chunk s"
  "avg_chunk_bits (absorb s d) = avg_chunk_bits s"
  "calc_md5 (absorb s d) = calc_md5 s" "calc_sha256 (absorb s d) = calc_sha256 s"
  "window (absorb s d) = window s" "window_pos (absorb s d) = window_pos s"
  "chunk_pos (absorb s d) = chunk_pos s" "hash (absorb s d) = hash s"
  "split_points (absorb s d) = split_points s"
  by (simp_all add: absorb_def Let_def)

lemma Splitter_fresh: "Splitter mn mx bits md5 sha256 = Some s \<Longrightarrow> fresh s"
  by (auto simp: Splitter_def fresh_def split: if_splits)

lemma Splitter_fields:
  assumes "Splitter mn mx bits md5 sha256 = Some s"
  shows "min_chunk s = nat mn" "max_chunk s = nat mx" "avg_chunk_bits s = nat bits"
    "calc_md5 s = md5" "calc_sha256 s = sha256" "chunk_pos s = 0" "split_points s = []"
    "md5_ctx s = (if md5 then Absorbing [] else Uninit)"
    "sha256_ctx s = (if sha256 then Absorbing [] else Uninit)"
  using assms by (auto simp: Splitter_def split: if_splits)


section \<open>Properties of the splitter\<close>


lemma finish_fields:
  "split_points (fst (finish MD5 SHA256 s want_md5 want_sha256)) = split_points s"
  "chunk_pos (fst (finish MD5 SHA256 s want_md5 want_sha256)) = chunk_pos s"
  "window (fst (finish MD5 SHA256 s want_md5 want_sha256)) = window s"
  "window_pos (fst (finish MD5 SHA256 s want_md5 want_sha256)) = window_pos s"
  "hash (fst (finish MD5 SHA256 s want_md5 want_sha256)) = hash s"
  by (simp_all add: finish_def Let_def split: prod.splits)

definition example_digest :: "nat \<Rightarrow> byte list \<Rightarrow> nat" where
  "example_digest k bs = (k + sum_list (map unat bs)) mod 65521"

text \<open>
  Claim C1, as the code has it. For every parameter set the constructor accepts with
  \<open>avg_chunk_bits < 64\<close> (the width of the hash, beyond which the shift that builds the
  mask is undefined) and every input stream, however it is cut into \<open>push\<close> calls of
  lengths \<open>len\<close> with \<open>max_chunk + len \<le> 2^31\<close> (so that \<open>chunk_pos + len\<close> fits the
  \<open>int\<close> that holds it), the emitted chunk lengths are exactly \<open>chunk_lengths\<close>: each chunk
  ends at the first position \<open>p\<close> (counted from the start of the current chunk) with
  \<open>p > min_chunk\<close> and \<open>(hash & mask) == mask\<close>, or with \<open>p == max_chunk\<close>, where
  \<open>mask = (1 << avg_chunk_bits) - 1\<close> and \<open>hash\<close> is the rolling hash after shifting only
  the bytes at positions \<open>min_chunk + 1 .. p\<close> of the chunk into a zeroed 16-byte window.
  No boundary is declared anywhere else, and the bytes after the last boundary stay in
  the splitter as the residual chunk.
\<close>

theorem boundary_rule:
  assumes "Splitter mn mx bits md5 sha256 = Some s0"
    and "bits < 64"
    and "\<forall>d\<in>set segs. nat mx + length d \<le> 2 ^ 31"
  shows "\<exists>s. push_all upd s0 segs = Some s \<and>
             split_points s = chunk_lengths upd (nat mn) (nat mx) (nat bits) (concat segs) \<and>
             sum_list (split_points s) + chunk_pos s = length (concat segs)"
proof -
  have inv: "splitter_inv s0" using assms(1) by (rule Splitter_inv)
  have fr: "fresh s0" using assms(1) by (rule Splitter_fresh)
  note f = Splitter_fields[OF assms(1)]
  have fit: "fits upd s0 segs"
    by (rule fits_each[OF inv]) (use assms(3) f in simp)
  have b: "nat bits mod 64 = nat bits" using assms(2) by simp
  have "split_points (foldl (step upd) s0 (concat segs))
          = split_points s0 @ chunk_lengths upd (nat mn) (nat mx) (nat bits) (concat segs) \<and>
        chunk_pos (foldl (step upd) s0 (concat segs))
          + sum_list (chunk_lengths upd (nat mn) (nat mx) (nat bits) (concat segs)) = length (concat segs)"
    by (rule foldl_step_chunk_lengths[OF fr]) (simp_all add: f b)
  then show ?thesis
    using push_all_step[OF inv fit] f(7) by simp
qed

theorem boundary_rule_witness:
  "\<exists>s. push_all example_update (the (Splitter 2 5 1 False False)) [[1,2,3],[4,5,6,7,8],[],[9,10,11]] = Some s \<and>
       split_points s = chunk_lengths example_update (nat 2) (nat 5) (nat 1) (concat [[1,2,3],[4,5,6,7,8],[],[9,10,11]]) \<and>
       sum_list (split_points s) + chunk_pos s = length (concat [[1,2,3],[4,5,6,7,8],[],[9,10,11::byte]])"
proof -
  have c: "Splitter 2 5 1 False False = Some (the (Splitter 2 5 1 False False))"
    by (simp add: Splitter_def)
  have b: "(1::int) < 64" by simp
  have h: "\<forall>d\<in>set [[1,2,3],[4,5,6,7,8],[],[9,10,11::byte]]. nat 5 + length d \<le> 2 ^ 31" by simp
  from boundary_rule[OF c b h] show ?thesis .
qed

text \<open>
  The rule as the specification words it: a boundary at \<open>p\<close> when \<open>p \<ge> min_chunk\<close> and
  either the hash over the 16-byte window ending at \<open>p\<close> has all mask bits set or
  \<open>p = max_chunk\<close>.
\<close>

definition window_hash :: "rabin_update \<Rightarrow> byte list \<Rightarrow> nat \<Rightarrow> rabin_hash" where
  "window_hash upd chunk p = rolling_hash upd (drop (p - NB_RABIN_WINDOW_LEN) (take p chunk))"

definition claimed_boundary_at :: "rabin_update \<Rightarrow> nat \<Rightarrow> nat \<Rightarrow> nat \<Rightarrow> byte list \<Rightarrow> nat \<Rightarrow> bool" where
  "claimed_boundary_at upd mn mx bits chunk p =
     (p \<ge> mn \<and> ((window_hash upd chunk p AND chunk_mask bits) = chunk_mask bits \<or> p = mx))"

text \<open>
  Two inputs on which the worded rule and the code part. With \<open>min_chunk = 1\<close>,
  \<open>max_chunk = 3\<close>, \<open>avg_chunk_bits = 0\<close> the worded rule puts a boundary at \<open>p = 1\<close>; the
  code skips that byte and cuts at \<open>p = 2\<close>. With \<open>min_chunk = 1\<close>, \<open>max_chunk = 4\<close>,
  \<open>avg_chunk_bits = 2\<close> and the bytes \<open>1, 1, 0, 0\<close> the hash over the window ending at
  \<open>p = 2\<close> has both mask bits set, but the code never shifted the first byte into its
  window, sees only one bit set, and cuts at \<open>p = max_chunk = 4\<close>.
\<close>

theorem boundary_rule_counterexample:
  "claimed_boundary_at example_update 1 3 0 [1, 2] 1 \<and>
   push example_update (the (Splitter 1 3 0 False False)) [1, 2] \<noteq> None \<and>
   split_points (the (push example_update (the (Splitter 1 3 0 False False)) [1, 2])) = [2] \<and>
   claimed_boundary_at example_update 1 4 2 [1, 1, 0, 0] 2 \<and>
   push example_update (the (Splitter 1 4 2 False False)) [1, 1, 0, 0] \<noteq> None \<and>
   split_points (the (push example_update (the (Splitter 1 4 2 False False)) [1, 1, 0, 0])) = [4]"
  by code_simp

text \<open>
  Claim C2, as the code has it. For every input stream fed through any sequence of \<open>push\<close>
  calls of lengths \<open>len\<close> with \<open>max_chunk + len \<le> 2^31\<close>, after \<open>finish\<close> every emitted
  chunk \<open>c\<close> satisfies \<open>min_chunk \<le> |c| \<le> max_chunk\<close>; the residual chunk left in the
  splitter is shorter than \<open>max_chunk\<close> (and may be shorter than \<open>min_chunk\<close> whatever the
  length of the input); emitted chunks and residual together are the whole input; and an
  input shorter than \<open>min_chunk\<close> emits no boundary and leaves a residual chunk of the
  whole input's length.
\<close>

theorem chunk_bounds:
  assumes "Splitter mn mx bits md5 sha256 = Some s0"
    and "\<forall>d\<in>set segs. nat mx + length d \<le> 2 ^ 31"
  shows "\<exists>s f. push_all upd s0 segs = Some s \<and>
      f = fst (finish MD5 SHA256 s want_md5 want_sha256) \<and>
      (\<forall>c\<in>set (split_points f). nat mn \<le> c \<and> c \<le> nat mx) \<and>
      chunk_pos f < nat mx \<and>
      sum_list (split_points f) + chunk_pos f = length (concat segs) \<and>
      (length (concat segs) < nat mn \<longrightarrow> split_points f = [] \<and> chunk_pos f = length (concat segs))"
proof -
  have inv: "splitter_inv s0" using assms(1) by (rule Splitter_inv)
  note f = Splitter_fields[OF assms(1)]
  have fit: "fits upd s0 segs"
    by (rule fits_each[OF inv]) (use assms(2) f in simp)
  let ?t = "foldl (step upd) s0 (concat segs)"
  have b: "\<forall>c\<in>set (split_points ?t). min_chunk s0 \<le> c \<and> c \<le> max_chunk s0"
    by (rule foldl_step_split_bounds[OF inv]) (simp add: f)
  have r: "chunk_pos ?t < max_chunk s0"
    using foldl_step_inv[OF inv, of upd "concat segs"] by (simp add: splitter_inv_def)
  have t: "sum_list (split_points ?t) + chunk_pos ?t = length (concat segs)"
    by (simp add: foldl_step_total f)
  have sh: "split_points ?t = [] \<and> chunk_pos ?t = length (concat segs)" if "length (concat segs) < nat mn"
  proof -
    have "?t = s0\<lparr>chunk_pos := chunk_pos s0 + length (concat segs)\<rparr>"
      by (rule step_skip) (use that inv f in \<open>simp_all add: splitter_inv_def\<close>)
    then show ?thesis by (simp add: f)
  qed
  show ?thesis
    using push_all_step[OF inv fit] b r t sh by (simp add: f finish_fields)
qed

theorem chunk_bounds_witness:
  "(\<exists>s f. push_all example_update (the (Splitter 2 5 1 False False)) [[1], [2, 3, 4, 5, 6, 7]] = Some s \<and>
      f = fst (finish (example_digest 5) (example_digest 256) s False False) \<and>
      (\<forall>c\<in>set (split_points f). nat 2 \<le> c \<and> c \<le> nat 5) \<and>
      chunk_pos f < nat 5 \<and>
      sum_list (split_points f) + chunk_pos f = length (concat [[1], [2, 3, 4, 5, 6, 7::byte]])) \<and>
   (\<exists>s f. push_all example_update (the (Splitter 3 5 1 False False)) [[1], [2]] = Some s \<and>
      f = fst (finish (example_digest 5) (example_digest 256) s False False) \<and>
      split_points f = [] \<and> chunk_pos f = length (concat [[1], [2::byte]]))"
proof -
  have c: "Splitter 2 5 1 False False = Some (the (Splitter 2 5 1 False False))"
    by (simp add: Splitter_def)
  have h: "\<forall>d\<in>set [[1], [2, 3, 4, 5, 6, 7::byte]]. nat 5 + length d \<le> 2 ^ 31" by simp
  have c': "Splitter 3 5 1 False False = Some (the (Splitter 3 5 1 False False))"
    by (simp add: Splitter_def)
  have h': "\<forall>d\<in>set [[1], [2::byte]]. nat 5 + length d \<le> 2 ^ 31" by simp
  have l: "length (concat [[1], [2::byte]]) < nat 3" by simp
  from chunk_bounds[OF c h, of example_update "example_digest 5" "example_digest 256" False False]
  have 1: "\<exists>s f. push_all example_update (the (Splitter 2 5 1 False False)) [[1], [2, 3, 4, 5, 6, 7]] = Some s \<and>
      f = fst (finish (example_digest 5) (example_digest 256) s False False) \<and>
      (\<forall>c\<in>set (split_points f). nat 2 \<le> c \<and> c \<le> nat 5) \<and>
      chunk_pos f < nat 5 \<and>
      sum_list (split_points f) + chunk_pos f = length (concat [[1], [2, 3, 4, 5, 6, 7::byte]])"
    by blast
  from chunk_bounds[OF c' h', of example_update "example_digest 5" "example_digest 256" False False] l
  have 2: "\<exists>s f. push_all example_update (the (Splitter 3 5 1 False False)) [[1], [2]] = Some s \<and>
      f = fst (finish (example_digest 5) (example_digest 256) s False False) \<and>
      split_points f = [] \<and> chunk_pos f = length (concat [[1], [2::byte]])"
    by blast
  from 1 2 show ?thesis by (rule conjI)
qed

text \<open>
  An input of four bytes, not shorter than \<open>min_chunk = 2\<close>, that leaves after \<open>finish\<close>
  one chunk of three bytes and a residual chunk of one byte.
\<close>

theorem chunk_bounds_counterexample:
  "push example_update (the (Splitter 2 4 0 False False)) [1, 2, 3, 4] \<noteq> None \<and>
   split_points (fst (finish (example_digest 5) (example_digest 256)
      (the (push example_update (the (Splitter 2 4 0 False False)) [1, 2, 3, 4])) False False)) = [3] \<and>
   chunk_pos (fst (finish (example_digest 5) (example_digest 256)
      (the (push example_update (the (Splitter 2 4 0 False False)) [1, 2, 3, 4])) False False)) = 1 \<and>
   min_chunk (fst (finish (example_digest 5) (example_digest 256)
      (the (push example_update (the (Splitter 2 4 0 False False)) [1, 2, 3, 4])) False False)) = 2 \<and>
   length [1, 2, 3, 4 :: byte] = 4"
  by code_simp










lemma absorb_md5_ctx:
  "md5_ctx (absorb s d) = (if calc_md5 s then EVP_DigestUpdate (md5_ctx s) d else md5_ctx s)"
  "sha256_ctx (absorb s d) = (if calc_sha256 s then EVP_DigestUpdate (sha256_ctx s) d else sha256_ctx s)"
  by (simp_all add: absorb_def Let_def)

text \<open>
  Claim C4. For every input stream and every fragmentation of it into \<open>push\<close> calls, the
  MD5 (SHA-256) value that \<open>finish\<close> writes, when the digest is enabled and a destination
  is given, is the digest of the concatenation of all bytes pushed; \<open>finish\<close> adds no split
  point and leaves the residual chunk state (position, window, hash) as it was.
\<close>

theorem finish_digests:
  assumes "Splitter mn mx bits md5 sha256 = Some s0"
  shows "\<exists>s. push_all upd s0 segs = Some s \<and>
     (case finish MD5 SHA256 s want_md5 want_sha256 of
        (s', out_md5, out_sha256) \<Rightarrow>
          out_md5 = (if want_md5 \<and> md5 then Some (MD5 (concat segs)) else None) \<and>
          out_sha256 = (if want_sha256 \<and> sha256 then Some (SHA256 (concat segs)) else None) \<and>
          split_points s' = split_points s \<and> chunk_pos s' = chunk_pos s \<and>
          window s' = window s \<and> window_pos s' = window_pos s \<and> hash s' = hash s)"
proof -
  have inv: "splitter_inv s0" using assms by (rule Splitter_inv)
  note f = Splitter_fields[OF assms]
  obtain s where ps: "push_all upd s0 segs = Some s"
    and sc: "same_config (absorb s0 (concat segs)) s"
    using push_all_total[OF inv, of upd segs] by blast
  have m: "md5_ctx s = (if md5 then Absorbing (concat segs) else Uninit)"
    using sc by (simp add: same_config_def absorb_md5_ctx f)
  have h: "sha256_ctx s = (if sha256 then Absorbing (concat segs) else Uninit)"
    using sc by (simp add: same_config_def absorb_md5_ctx f)
  have c: "calc_md5 s = md5" "calc_sha256 s = sha256"
    using sc by (simp_all add: same_config_def f)
  have "case finish MD5 SHA256 s want_md5 want_sha256 of
        (s', out_md5, out_sha256) \<Rightarrow>
          out_md5 = (if want_md5 \<and> md5 then Some (MD5 (concat segs)) else None) \<and>
          out_sha256 = (if want_sha256 \<and> sha256 then Some (SHA256 (concat segs)) else None) \<and>
          split_points s' = split_points s \<and> chunk_pos s' = chunk_pos s \<and>
          window s' = window s \<and> window_pos s' = window_pos s \<and> hash s' = hash s"
    unfolding finish_def Let_def using m h c by simp
  then show ?thesis using ps by simp
qed

theorem finish_digests_witness:
  "\<exists>s. push_all example_update (the (Splitter 2 5 1 True True)) [[1, 2, 3], [4, 5]] = Some s \<and>
     (case finish (example_digest 5) (example_digest 256) s True True of
        (s', out_md5, out_sha256) \<Rightarrow>
          out_md5 = (if True \<and> True then Some (example_digest 5 (concat [[1, 2, 3], [4, 5]])) else None) \<and>
          out_sha256 = (if True \<and> True then Some (example_digest 256 (concat [[1, 2, 3], [4, 5]])) else None) \<and>
          split_points s' = split_points s \<and> chunk_pos s' = chunk_pos s \<and>
          window s' = window s \<and> window_pos s' = window_pos s \<and> hash s' = hash s)"
proof -
  have "Splitter 2 5 1 True True = Some (the (Splitter 2 5 1 True True))"
    by (simp add: Splitter_def)
  then show ?thesis by (rule finish_digests)
qed


end
